theory Spec2Isabelle
  imports Complex_Main "HOL-Library.Word" "HOL-Library.Multiset"
begin

section \<open>Strings, records and messages\<close>

text \<open>
  A JavaScript string is a sequence of UTF-16 code units: \<open>s.length\<close> counts code units and
  \<open>s[i]\<close> reads one, so a string is a list of 16-bit words.  Property names (\<open>'pinyin'\<close>,
  \<open>'hanzi'\<close>) are written as HOL string literals.  Numbers are modelled exactly: lengths,
  distances and identifiers as natural numbers or integers, scores and probabilities as
  rationals; the rounding of IEEE doubles is outside the model.
\<close>

type_synonym jsstring = "16 word list"

text \<open>
  A dictionary record as the worker holds it: the two source fields, each a string or absent,
  and the two normalized forms that \<open>initialize\<close> stores on the record under
  \<open>searchable_pinyin\<close> and \<open>searchable_hanzi\<close>.
\<close>

record dict_record =
  pinyin :: "jsstring option"
  hanzi :: "jsstring option"
  searchable_pinyin :: "jsstring option"
  searchable_hanzi :: "jsstring option"

text \<open>
  \<open>options\<close> of a search: \<open>key\<close>, \<open>threshold\<close> and \<open>lengthTolerance\<close>, each possibly
  missing (\<open>None\<close> is \<open>undefined\<close> or \<open>null\<close>).
\<close>

record search_options =
  key :: "string option"
  threshold :: "rat option"
  lengthTolerance :: "int option"

record search_payload =
  query :: jsstring
  options :: search_options
  previousWordHanzi :: "jsstring option"

text \<open>
  One entry of a result list, \<open>{ item, score, bigramScore }\<close>.  Inside the worker \<open>item\<close> is a
  reference to a record object; in a posted message it is the structured clone of that record.
\<close>

record 'i search_result =
  item :: 'i
  score :: rat
  bigramScore :: rat

datatype js_error = Error string | TypeError

text \<open>
  The messages of the two directions.  \<open>init_error\<close> is posted with \<open>err.message\<close>; the model
  keeps the error, whose message is its string for an \<open>Error\<close> and is chosen by the engine
  for a \<open>TypeError\<close>.
\<close>

datatype worker_request =
    init_msg
  | search_msg search_payload nat
  | other_request

datatype worker_reply =
    init_success
  | init_error js_error
  | search_results "dict_record search_result list" nat

section \<open>The worker: Levenshtein distance\<close>

text \<open>
  \<open>levenshteinDistance(a, b)\<close> fills a matrix of \<open>b.length + 1\<close> rows and \<open>a.length + 1\<close>
  columns.  A cell starts as \<open>null\<close>, which counts as \<open>0\<close> in an addition; every cell the
  loops read has been written before, so the model starts the cells at \<open>0\<close>.  The counted
  loops are folds over their index ranges.
\<close>

type_synonym matrix = "nat list list"

definition set_cell :: "matrix \<Rightarrow> nat \<Rightarrow> nat \<Rightarrow> nat \<Rightarrow> matrix" where
  "set_cell m j i v = m[j := (m ! j)[i := v]]"

definition fill_cell :: "jsstring \<Rightarrow> jsstring \<Rightarrow> nat \<Rightarrow> nat \<Rightarrow> matrix \<Rightarrow> matrix" where
  "fill_cell a b j i m =
     (let cost = (if a ! (i - 1) = b ! (j - 1) then 0 else 1)
      in set_cell m j i
           (min (min (m ! j ! (i - 1) + 1) (m ! (j - 1) ! i + 1)) (m ! (j - 1) ! (i - 1) + cost)))"

definition fill_row :: "jsstring \<Rightarrow> jsstring \<Rightarrow> nat \<Rightarrow> matrix \<Rightarrow> matrix" where
  "fill_row a b j m = fold (fill_cell a b j) [1..<length a + 1] m"

definition levenshteinDistance :: "jsstring \<Rightarrow> jsstring \<Rightarrow> nat" where
  "levenshteinDistance a b =
     (let matrix0 = replicate (length b + 1) (replicate (length a + 1) 0);
          matrix1 = fold (\<lambda>i m. set_cell m 0 i i) [0..<length a + 1] matrix0;
          matrix2 = fold (\<lambda>j m. set_cell m j 0 j) [0..<length b + 1] matrix1;
          matrix3 = fold (fill_row a b) [1..<length b + 1] matrix2
      in matrix3 ! length b ! length a)"

text \<open>
  The recursive edit distance, the reference for the proofs: the cost of turning one list
  into the other with insertions, deletions and substitutions of cost one each.
\<close>

fun edit_distance :: "'a list \<Rightarrow> 'a list \<Rightarrow> nat" where
  "edit_distance [] ys = length ys"
| "edit_distance (x # xs) [] = Suc (length xs)"
| "edit_distance (x # xs) (y # ys) =
     min (min (edit_distance xs (y # ys) + 1) (edit_distance (x # xs) ys + 1))
         (edit_distance xs ys + (if x = y then 0 else 1))"

text \<open>
  The score of a candidate, \<open>1 - distance / Math.max(queryLength, target.length)\<close>, for a
  pair that is not empty on both sides (where JavaScript would compute \<open>NaN\<close>).
\<close>

definition similarityScore :: "jsstring \<Rightarrow> jsstring \<Rightarrow> rat" where
  "similarityScore q target =
     1 - of_nat (levenshteinDistance q target) / of_nat (max (length q) (length target))"

definition well_shaped :: "nat \<Rightarrow> nat \<Rightarrow> matrix \<Rightarrow> bool" where
  "well_shaped rows cols m = (length m = rows \<and> (\<forall>j < rows. length (m ! j) = cols))"


subsection \<open>The reference distance is a metric\<close>

lemma edit_distance_Nil2 [simp]: "edit_distance xs [] = length xs"
  by (cases xs) simp_all

lemma edit_distance_sym: "edit_distance xs ys = edit_distance ys xs"
  by (induction xs ys rule: edit_distance.induct) (simp_all add: min.commute min.left_commute)

lemma edit_distance_refl [simp]: "edit_distance xs xs = 0"
  by (induction xs) simp_all

lemma edit_distance_Cons1: "edit_distance (x # xs) ys \<le> Suc (edit_distance xs ys)"
  by (cases ys) (simp_all add: min.coboundedI1)

lemma edit_distance_Cons2: "edit_distance xs (y # ys) \<le> Suc (edit_distance xs ys)"
  by (cases xs) (simp_all add: min.coboundedI1)

lemma edit_distance_le_max: "edit_distance xs ys \<le> max (length xs) (length ys)"
proof (induction xs ys rule: edit_distance.induct)
  case (3 x xs y ys)
  have "edit_distance (x # xs) (y # ys) \<le> edit_distance xs ys + (if x = y then 0 else 1)"
    by simp
  also have "\<dots> \<le> Suc (max (length xs) (length ys))"
    using 3 by simp
  finally show ?case by simp
qed simp_all

lemma length_le_edit_distance: "length ys \<le> length xs + edit_distance xs ys"
proof (induction xs ys rule: edit_distance.induct)
  case (3 x xs y ys)
  then show ?case by (simp add: min_def)
qed simp_all

lemma edit_distance_le_sum: "edit_distance xs ys \<le> length xs + length ys"
  using edit_distance_le_max [of xs ys] by simp


lemma edit_distance_triangle:
  "edit_distance xs zs \<le> edit_distance xs ys + edit_distance ys zs"
proof (induction "length xs + length ys + length zs" arbitrary: xs ys zs rule: less_induct)
  case less
  show ?case
  proof (cases xs)
    case Nil
    then show ?thesis using length_le_edit_distance [of zs ys] by simp
  next
    case xs: (Cons x xs')
    show ?thesis
    proof (cases ys)
      case Nil
      then show ?thesis using edit_distance_le_sum [of xs zs] by simp
    next
      case ys: (Cons y ys')
      show ?thesis
      proof (cases zs)
        case Nil
        then show ?thesis
          using length_le_edit_distance [of xs ys] by (simp add: edit_distance_sym [of ys xs])
      next
        case zs: (Cons z zs')
        define cxy :: nat where "cxy = (if x = y then 0 else 1)"
        define cyz :: nat where "cyz = (if y = z then 0 else 1)"
        define cxz :: nat where "cxz = (if x = z then 0 else 1)"
        have cost: "cxz \<le> cxy + cyz"
          by (simp add: cxy_def cyz_def cxz_def)
        have A: "edit_distance xs ys =
            min (min (edit_distance xs' ys + 1) (edit_distance xs ys' + 1))
                (edit_distance xs' ys' + cxy)"
          by (simp add: xs ys cxy_def)
        have B: "edit_distance ys zs =
            min (min (edit_distance ys' zs + 1) (edit_distance ys zs' + 1))
                (edit_distance ys' zs' + cyz)"
          by (simp add: ys zs cyz_def)
        have C1: "edit_distance xs zs \<le> Suc (edit_distance xs' zs)"
          unfolding xs by (rule edit_distance_Cons1)
        have C2: "edit_distance xs zs \<le> Suc (edit_distance xs zs')"
          unfolding zs by (rule edit_distance_Cons2)
        have C3: "edit_distance xs zs \<le> edit_distance xs' zs' + cxz"
          by (simp add: xs zs cxz_def)
        have IH1: "edit_distance xs' zs \<le> edit_distance xs' ys + edit_distance ys zs"
          by (rule less) (simp add: xs)
        have IH2: "edit_distance xs zs' \<le> edit_distance xs ys + edit_distance ys zs'"
          by (rule less) (simp add: zs)
        have IH3: "edit_distance xs zs \<le> edit_distance xs ys' + edit_distance ys' zs"
          by (rule less) (simp add: ys)
        have IH4: "edit_distance xs zs' \<le> edit_distance xs ys' + edit_distance ys' zs'"
          by (rule less) (simp add: ys zs)
        have IH5: "edit_distance xs' zs \<le> edit_distance xs' ys' + edit_distance ys' zs"
          by (rule less) (simp add: xs ys)
        have IH6: "edit_distance xs' zs' \<le> edit_distance xs' ys' + edit_distance ys' zs'"
          by (rule less) (simp add: xs ys zs)
        show ?thesis
          using A B C1 C2 C3 IH1 IH2 IH3 IH4 IH5 IH6 cost by arith
      qed
    qed
  qed
qed


subsection \<open>The matrix holds the distances of the prefixes\<close>

lemma fold_upt_invariant:
  assumes "P lo m" and "lo \<le> hi"
    and "\<And>i m. lo \<le> i \<Longrightarrow> i < hi \<Longrightarrow> P i m \<Longrightarrow> P (Suc i) (f i m)"
  shows "P hi (fold f [lo..<hi] m)"
  using assms(2,3)
proof (induction hi)
  case 0
  then show ?case using assms(1) by simp
next
  case (Suc hi)
  show ?case
  proof (cases "lo = Suc hi")
    case True
    then show ?thesis using assms(1) by simp
  next
    case False
    with Suc.prems(1) have le: "lo \<le> hi" by simp
    have "P hi (fold f [lo..<hi] m)"
      using le Suc.prems(2) by (intro Suc.IH) simp_all
    then have "P (Suc hi) (f hi (fold f [lo..<hi] m))"
      using le by (intro Suc.prems(2)) simp_all
    then show ?thesis using le by simp
  qed
qed

lemma well_shaped_set_cell:
  assumes "well_shaped rows cols m"
  shows "well_shaped rows cols (set_cell m j i v)"
proof -
  have "length (m[j := (m ! j)[i := v]] ! j') = cols" if "j' < rows" for j'
  proof (cases "j' = j")
    case True
    then show ?thesis using assms that by (simp add: well_shaped_def)
  next
    case False
    then show ?thesis using assms that by (simp add: well_shaped_def)
  qed
  then show ?thesis using assms by (simp add: well_shaped_def set_cell_def)
qed

lemma nth_set_cell:
  "well_shaped rows cols m \<Longrightarrow> j < rows \<Longrightarrow> i < cols \<Longrightarrow>
   set_cell m j i v ! j' ! i' = (if j' = j \<and> i' = i then v else m ! j' ! i')"
  by (cases "j' = j"; cases "i' = i") (simp_all add: well_shaped_def set_cell_def)

definition prefix_distance :: "jsstring \<Rightarrow> jsstring \<Rightarrow> nat \<Rightarrow> nat \<Rightarrow> nat" where
  "prefix_distance a b i j = edit_distance (rev (take i a)) (rev (take j b))"

lemma prefix_distance_0 [simp]:
  "i \<le> length a \<Longrightarrow> prefix_distance a b i 0 = i"
  "j \<le> length b \<Longrightarrow> prefix_distance a b 0 j = j"
  by (simp_all add: prefix_distance_def)

lemma prefix_distance_Suc:
  assumes "i < length a" and "j < length b"
  shows "prefix_distance a b (Suc i) (Suc j) =
     min (min (prefix_distance a b i (Suc j) + 1) (prefix_distance a b (Suc i) j + 1))
         (prefix_distance a b i j + (if a ! i = b ! j then 0 else 1))"
  using assms by (simp add: prefix_distance_def take_Suc_conv_app_nth)

lemma first_row:
  assumes "well_shaped rows (Suc n) m" and "0 < rows"
  shows "well_shaped rows (Suc n) (fold (\<lambda>i m. set_cell m 0 i i) [0..<Suc n] m) \<and>
         (\<forall>i < Suc n. fold (\<lambda>i m. set_cell m 0 i i) [0..<Suc n] m ! 0 ! i = i)"
proof -
  let ?P = "\<lambda>k m. well_shaped rows (Suc n) m \<and> (\<forall>i < k. m ! 0 ! i = i)"
  have "?P (Suc n) (fold (\<lambda>i m. set_cell m 0 i i) [0..<Suc n] m)"
  proof (rule fold_upt_invariant [where P = ?P])
    show "?P 0 m" using assms by simp
    show "0 \<le> Suc n" by simp
    fix i m assume "0 \<le> i" "i < Suc n" and P: "?P i m"
    then show "?P (Suc i) (set_cell m 0 i i)"
      using assms(2) by (auto simp add: well_shaped_set_cell nth_set_cell less_Suc_eq)
  qed
  then show ?thesis by simp
qed

lemma first_column:
  assumes "well_shaped (Suc k) cols m" and "0 < cols" and "\<forall>i < cols. m ! 0 ! i = i"
  shows "well_shaped (Suc k) cols (fold (\<lambda>j m. set_cell m j 0 j) [0..<Suc k] m) \<and>
         (\<forall>i < cols. fold (\<lambda>j m. set_cell m j 0 j) [0..<Suc k] m ! 0 ! i = i) \<and>
         (\<forall>j < Suc k. fold (\<lambda>j m. set_cell m j 0 j) [0..<Suc k] m ! j ! 0 = j)"
proof -
  let ?P = "\<lambda>n m. well_shaped (Suc k) cols m \<and> (\<forall>i < cols. m ! 0 ! i = i) \<and>
     (\<forall>j < n. m ! j ! 0 = j)"
  have "?P (Suc k) (fold (\<lambda>j m. set_cell m j 0 j) [0..<Suc k] m)"
  proof (rule fold_upt_invariant [where P = ?P])
    show "?P 0 m" using assms by simp
    show "0 \<le> Suc k" by simp
    fix j m assume "0 \<le> j" "j < Suc k" and P: "?P j m"
    then show "?P (Suc j) (set_cell m j 0 j)"
      using assms(2) by (auto simp add: well_shaped_set_cell nth_set_cell less_Suc_eq)
  qed
  then show ?thesis by simp
qed


definition rows_done :: "jsstring \<Rightarrow> jsstring \<Rightarrow> nat \<Rightarrow> matrix \<Rightarrow> bool" where
  "rows_done a b j m =
     (well_shaped (Suc (length b)) (Suc (length a)) m \<and>
      (\<forall>j' < j. \<forall>i' < Suc (length a). m ! j' ! i' = prefix_distance a b i' j') \<and>
      (\<forall>j' < Suc (length b). m ! j' ! 0 = j'))"

lemma fill_cell_step:
  assumes rd: "rows_done a b j m" and j: "0 < j" "j < Suc (length b)"
    and i: "0 < i" "i < Suc (length a)"
    and row: "\<forall>i' < i. m ! j ! i' = prefix_distance a b i' j"
  shows "rows_done a b j (fill_cell a b j i m) \<and>
         (\<forall>i' < Suc i. fill_cell a b j i m ! j ! i' = prefix_distance a b i' j)"
proof -
  obtain i0 j0 where i0: "i = Suc i0" and j0: "j = Suc j0"
    using i(1) j(1) by (metis Suc_pred)
  have shape: "well_shaped (Suc (length b)) (Suc (length a)) m"
    using rd by (simp add: rows_done_def)
  have left: "m ! j ! (i - 1) = prefix_distance a b i0 j"
    using row i0 by simp
  have up: "m ! (j - 1) ! i = prefix_distance a b i j0"
    using rd i(2) j0 by (simp add: rows_done_def)
  have diag: "m ! (j - 1) ! (i - 1) = prefix_distance a b i0 j0"
    using rd i(2) i0 j0 by (simp add: rows_done_def)
  let ?v = "min (min (m ! j ! (i - 1) + 1) (m ! (j - 1) ! i + 1))
      (m ! (j - 1) ! (i - 1) + (if a ! (i - 1) = b ! (j - 1) then 0 else 1))"
  have v: "?v = prefix_distance a b i j"
    using i(2) j(2) left up diag by (simp add: i0 j0 prefix_distance_Suc)
  have cell: "fill_cell a b j i m = set_cell m j i (prefix_distance a b i j)"
    unfolding fill_cell_def Let_def v ..
  have nth: "fill_cell a b j i m ! j' ! i' =
      (if j' = j \<and> i' = i then prefix_distance a b i j else m ! j' ! i')" for j' i'
    unfolding cell using shape j(2) i(2) by (rule nth_set_cell)
  have "well_shaped (Suc (length b)) (Suc (length a)) (fill_cell a b j i m)"
    unfolding cell using shape by (rule well_shaped_set_cell)
  then have "rows_done a b j (fill_cell a b j i m)"
    using rd i(1) by (simp add: rows_done_def nth)
  moreover have "\<forall>i' < Suc i. fill_cell a b j i m ! j ! i' = prefix_distance a b i' j"
    using row by (simp add: nth less_Suc_eq)
  ultimately show ?thesis ..
qed

lemma fill_row_step:
  assumes rd: "rows_done a b j m" and j: "0 < j" "j < Suc (length b)"
  shows "rows_done a b (Suc j) (fill_row a b j m)"
proof -
  let ?Q = "\<lambda>i m. rows_done a b j m \<and> (\<forall>i' < i. m ! j ! i' = prefix_distance a b i' j)"
  have "?Q (Suc (length a)) (fold (fill_cell a b j) [1..<Suc (length a)] m)"
  proof (rule fold_upt_invariant [where P = ?Q])
    have "m ! j ! 0 = prefix_distance a b 0 j"
      using rd j by (simp add: rows_done_def)
    then show "?Q 1 m" using rd by simp
    show "1 \<le> Suc (length a)" by simp
    fix i m' assume "1 \<le> i" "i < Suc (length a)" and Q: "?Q i m'"
    then show "?Q (Suc i) (fill_cell a b j i m')"
      using fill_cell_step [of a b j m' i] j by simp
  qed
  then show ?thesis
    by (simp add: fill_row_def rows_done_def less_Suc_eq [of _ j])
qed

lemma levenshteinDistance_edit_distance:
  "levenshteinDistance a b = edit_distance (rev a) (rev b)"
proof -
  let ?rows = "Suc (length b)" and ?cols = "Suc (length a)"
  let ?m0 = "replicate ?rows (replicate ?cols (0::nat))"
  let ?m1 = "fold (\<lambda>i m. set_cell m 0 i i) [0..<?cols] ?m0"
  let ?m2 = "fold (\<lambda>j m. set_cell m j 0 j) [0..<?rows] ?m1"
  let ?m3 = "fold (fill_row a b) [1..<?rows] ?m2"
  have "well_shaped ?rows ?cols ?m0"
    by (simp add: well_shaped_def del: replicate.simps)
  then have m1: "well_shaped ?rows ?cols ?m1 \<and> (\<forall>i < ?cols. ?m1 ! 0 ! i = i)"
    by (intro first_row) simp_all
  then have m2: "well_shaped ?rows ?cols ?m2 \<and> (\<forall>i < ?cols. ?m2 ! 0 ! i = i) \<and>
      (\<forall>j < ?rows. ?m2 ! j ! 0 = j)"
    by (intro first_column) simp_all
  have "rows_done a b ?rows ?m3"
  proof (rule fold_upt_invariant [where P = "rows_done a b"])
    show "rows_done a b 1 ?m2" using m2 by (simp add: rows_done_def)
    show "1 \<le> ?rows" by simp
    fix j m assume "1 \<le> j" "j < ?rows" "rows_done a b j m"
    then show "rows_done a b (Suc j) (fill_row a b j m)"
      by (intro fill_row_step) simp_all
  qed
  then have "?m3 ! length b ! length a = prefix_distance a b (length a) (length b)"
    by (simp add: rows_done_def)
  then show ?thesis
    by (simp add: levenshteinDistance_def Let_def prefix_distance_def)
qed


subsection \<open>The distance of the worker is a metric\<close>

lemma levenshteinDistance_le_max:
  "levenshteinDistance a b \<le> max (length a) (length b)"
  using edit_distance_le_max [of "rev a" "rev b"]
  by (simp add: levenshteinDistance_edit_distance)

lemma similarityScore_range:
  assumes "0 < max (length a) (length b)"
  shows "0 \<le> similarityScore a b \<and> similarityScore a b \<le> 1"
proof -
  let ?d = "levenshteinDistance a b" and ?m = "max (length a) (length b)"
  have "(of_nat ?d :: rat) \<le> of_nat ?m"
    using levenshteinDistance_le_max [of a b] by (simp only: of_nat_le_iff)
  moreover have "(0::rat) < of_nat ?m"
    using assms by (simp only: of_nat_0_less_iff)
  ultimately have "(of_nat ?d :: rat) / of_nat ?m \<le> 1" "0 \<le> (of_nat ?d :: rat) / of_nat ?m"
    by (simp_all add: divide_le_eq)
  then show ?thesis by (simp add: similarityScore_def)
qed

text \<open>
  C7.  \<open>levenshteinDistance\<close> is symmetric, zero on equal strings and satisfies the triangle
  inequality; it is at most the larger of the two lengths, so the score
  \<open>1 - distance / max(|a|, |b|)\<close> lies between 0 and 1 whenever one of the strings is not
  empty.
\<close>

theorem levenshteinDistance_metric:
  "levenshteinDistance a b = levenshteinDistance b a \<and>
   levenshteinDistance a a = 0 \<and>
   levenshteinDistance a b \<le> levenshteinDistance a c + levenshteinDistance c b \<and>
   levenshteinDistance a b \<le> max (length a) (length b) \<and>
   (0 < max (length a) (length b) \<longrightarrow>
      0 \<le> similarityScore a b \<and> similarityScore a b \<le> 1)"
proof -
  have "levenshteinDistance a b = levenshteinDistance b a"
    unfolding levenshteinDistance_edit_distance by (rule edit_distance_sym)
  moreover have "levenshteinDistance a a = 0"
    unfolding levenshteinDistance_edit_distance by (rule edit_distance_refl)
  moreover have "levenshteinDistance a b \<le> levenshteinDistance a c + levenshteinDistance c b"
    unfolding levenshteinDistance_edit_distance by (rule edit_distance_triangle)
  ultimately show ?thesis
    using levenshteinDistance_le_max [of a b] similarityScore_range [of a b] by blast
qed

theorem levenshteinDistance_metric_witness:
  "0 < max (length [110, 105 :: 16 word]) (length [108, 105, 51 :: 16 word]) \<and>
   levenshteinDistance [110, 105] [108, 105, 51] = 2 \<and>
   levenshteinDistance [108, 105, 51] [110, 105] = 2 \<and>
   levenshteinDistance [110, 105] [110, 105, 51] = 1 \<and>
   levenshteinDistance [110, 105, 51] [108, 105, 51] = 1 \<and>
   similarityScore [110, 105] [108, 105, 51] = 1 / 3 \<and>
   0 \<le> similarityScore [110, 105] [108, 105, 51] \<and>
   similarityScore [110, 105] [108, 105, 51] \<le> 1"
  using levenshteinDistance_metric [of "[110, 105]" "[108, 105, 51]" "[110, 105, 51]"]
  by (simp add: levenshteinDistance_edit_distance similarityScore_def)

section \<open>The worker: state and initialization\<close>

text \<open>
  \<open>String.prototype.trim\<close> removes the white space and line terminators of ECMAScript from
  both ends; \<open>replace(/[0-9]/g, '')\<close> removes the ten ASCII digits.  \<open>toLowerCase\<close> follows
  the Unicode case tables; the model takes it as a parameter \<open>lc\<close>, a function from strings
  to strings, and every result holds for any such function.  The examples use
  \<open>lower_ascii\<close>, which is what \<open>toLowerCase\<close> does on strings of ASCII and CJK code units.
\<close>

definition is_whitespace :: "16 word \<Rightarrow> bool" where
  "is_whitespace c =
     (c \<in> set [0x9, 0xA, 0xB, 0xC, 0xD, 0x20, 0xA0, 0x1680, 0x2028, 0x2029, 0x202F, 0x205F,
                0x3000, 0xFEFF] \<or> (0x2000 \<le> c \<and> c \<le> 0x200A))"

definition trim :: "jsstring \<Rightarrow> jsstring" where
  "trim s = rev (dropWhile is_whitespace (rev (dropWhile is_whitespace s)))"

definition strip_digits :: "jsstring \<Rightarrow> jsstring" where
  "strip_digits s = filter (\<lambda>c. \<not> (0x30 \<le> c \<and> c \<le> 0x39)) s"

definition lower_ascii :: "jsstring \<Rightarrow> jsstring" where
  "lower_ascii s = map (\<lambda>c. if 0x41 \<le> c \<and> c \<le> 0x5A then c + 0x20 else c) s"

text \<open>
  The state of the worker.  \<open>objects\<close> is the store of record objects: a reference to a
  record is its index there, and parsing a dictionary allocates its records at the end.
  \<open>dictionary\<close> holds the references of the current dictionary, \<open>searchIndex\<close> maps a
  property name to a group of buckets, and a bucket is a list of references under a length.
\<close>

type_synonym bucket_group = "nat \<rightharpoonup> nat list"

type_synonym bigram_table = "jsstring \<rightharpoonup> (jsstring \<rightharpoonup> rat)"

record worker_state =
  objects :: "dict_record list"
  dictionary :: "nat list"
  bigramProbabilities :: bigram_table
  searchIndex :: "string \<rightharpoonup> bucket_group"

definition initial_state :: worker_state where
  "initial_state =
     \<lparr>objects = [], dictionary = [], bigramProbabilities = Map.empty, searchIndex = Map.empty\<rparr>"

text \<open>
  \<open>record[key]\<close>, \<open>record[`searchable_${key}`]\<close> and the assignment to the latter, for the
  two property names the worker uses.
\<close>

definition get_field :: "string \<Rightarrow> dict_record \<Rightarrow> jsstring option" where
  "get_field k r = (if k = ''pinyin'' then pinyin r else if k = ''hanzi'' then hanzi r else None)"

definition get_searchable :: "string \<Rightarrow> dict_record \<Rightarrow> jsstring option" where
  "get_searchable k r =
     (if k = ''pinyin'' then searchable_pinyin r
      else if k = ''hanzi'' then searchable_hanzi r else None)"

definition set_searchable :: "string \<Rightarrow> jsstring \<Rightarrow> dict_record \<Rightarrow> dict_record" where
  "set_searchable k v r =
     (if k = ''pinyin'' then r\<lparr>searchable_pinyin := Some v\<rparr>
      else if k = ''hanzi'' then r\<lparr>searchable_hanzi := Some v\<rparr> else r)"

definition bucket_of :: "bucket_group \<Rightarrow> nat \<Rightarrow> nat list" where
  "bucket_of g len = (case g len of None \<Rightarrow> [] | Some bucket \<Rightarrow> bucket)"

text \<open>
  The body of the inner loop of \<open>initialize\<close> for the record \<open>ref\<close> and one key.  A function
  of the loops returns the state it reached and, when a statement throws, the error.
  The two statements on \<open>searchIndex[key][len]\<close> (create the bucket when it is missing,
  then push) are one update.
\<close>

definition index_key ::
  "(jsstring \<Rightarrow> jsstring) \<Rightarrow> nat \<Rightarrow> string \<Rightarrow> worker_state \<Rightarrow> worker_state \<times> js_error option" where
  "index_key lc ref k st =
     (let record = objects st ! ref in
      case get_field k record of
        None \<Rightarrow> (st, None)
      | Some target \<Rightarrow>
          if target = [] then (st, None)
          else
            let searchableTarget = lc (strip_digits (trim target)) in
            if searchableTarget = [] then (st, None)
            else
              let st1 = st\<lparr>objects :=
                          (objects st)[ref := set_searchable k searchableTarget record]\<rparr>;
                  len = length searchableTarget
              in (case searchIndex st1 k of
                    None \<Rightarrow> (st1, Some TypeError)
                  | Some buckets \<Rightarrow>
                      (st1\<lparr>searchIndex :=
                          (searchIndex st1)(k \<mapsto> buckets(len \<mapsto> bucket_of buckets len @ [ref]))\<rparr>,
                       None)))"

fun index_keys ::
  "(jsstring \<Rightarrow> jsstring) \<Rightarrow> nat \<Rightarrow> string list \<Rightarrow> worker_state \<Rightarrow> worker_state \<times> js_error option"
  where
  "index_keys lc ref [] st = (st, None)"
| "index_keys lc ref (k # ks) st =
     (case index_key lc ref k st of
        (st1, Some e) \<Rightarrow> (st1, Some e)
      | (st1, None) \<Rightarrow> index_keys lc ref ks st1)"

fun index_records ::
  "(jsstring \<Rightarrow> jsstring) \<Rightarrow> nat list \<Rightarrow> worker_state \<Rightarrow> worker_state \<times> js_error option" where
  "index_records lc [] st = (st, None)"
| "index_records lc (ref # refs) st =
     (case index_keys lc ref [''pinyin'', ''hanzi''] st of
        (st1, Some e) \<Rightarrow> (st1, Some e)
      | (st1, None) \<Rightarrow> index_records lc refs st1)"

text \<open>
  What the two fetches of \<open>initialize\<close> and the parsing of their bodies come to: a fetch is
  rejected, a response is not \<open>ok\<close>, the body of the dictionary or of the bigram table is
  rejected by \<open>json()\<close>, or both are parsed.  The dictionary is parsed, and assigned, before
  the bigram table.
\<close>

datatype fetch_outcome =
    fetch_rejected js_error
  | response_not_ok
  | dictionary_json_rejected js_error
  | bigram_json_rejected "dict_record list" js_error
  | loaded "dict_record list" bigram_table

datatype effect =
    console_log string
  | console_error js_error
  | post worker_reply

definition parse_dictionary :: "dict_record list \<Rightarrow> worker_state \<Rightarrow> worker_state" where
  "parse_dictionary d st =
     st\<lparr>objects := objects st @ d,
        dictionary := [length (objects st)..<length (objects st) + length d]\<rparr>"

definition initialize ::
  "(jsstring \<Rightarrow> jsstring) \<Rightarrow> fetch_outcome \<Rightarrow> worker_state \<Rightarrow>
   worker_state \<times> effect list \<times> js_error option" where
  "initialize lc env st =
     (case env of
        fetch_rejected e \<Rightarrow> (st, [console_log ''[Worker] Loading data...''], Some e)
      | response_not_ok \<Rightarrow>
          (st, [console_log ''[Worker] Loading data...''],
           Some (Error ''Failed to fetch worker data.''))
      | dictionary_json_rejected e \<Rightarrow> (st, [console_log ''[Worker] Loading data...''], Some e)
      | bigram_json_rejected d e \<Rightarrow>
          (parse_dictionary d st, [console_log ''[Worker] Loading data...''], Some e)
      | loaded d b \<Rightarrow>
          (let st1 = parse_dictionary d st;
               st2 = st1\<lparr>bigramProbabilities := b\<rparr>;
               st3 = st2\<lparr>searchIndex := [''pinyin'' \<mapsto> Map.empty, ''hanzi'' \<mapsto> Map.empty]\<rparr>
           in case index_records lc (dictionary st3) st3 of
                (st4, Some e) \<Rightarrow>
                  (st4, [console_log ''[Worker] Loading data...'',
                         console_log ''[Worker] Pre-processing and indexing data...''], Some e)
              | (st4, None) \<Rightarrow>
                  (st4, [console_log ''[Worker] Loading data...'',
                         console_log ''[Worker] Pre-processing and indexing data...'',
                         console_log ''[Worker] Indexing complete.''], None)))"

section \<open>The worker: \<open>performSearch\<close>\<close>

text \<open>
  The body of the loop over a bucket.  \<open>None\<close> stands for the \<open>TypeError\<close> that
  \<open>levenshteinDistance\<close> throws when the record has no searchable form under the key.
  When both lengths are zero the score is \<open>NaN\<close>, every comparison with it is false, and
  the record is not pushed.
\<close>

definition lookup_bigram :: "bigram_table \<Rightarrow> jsstring \<Rightarrow> jsstring \<Rightarrow> rat" where
  "lookup_bigram table p h =
     (case table p of
        None \<Rightarrow> 0
      | Some following \<Rightarrow> (case following h of None \<Rightarrow> 0 | Some v \<Rightarrow> v))"

fun scan_bucket ::
  "worker_state \<Rightarrow> string \<Rightarrow> jsstring \<Rightarrow> rat \<Rightarrow> bool \<Rightarrow> jsstring option \<Rightarrow> nat list \<Rightarrow>
   nat search_result list \<Rightarrow> nat search_result list option" where
  "scan_bucket st k normalizedQuery th hasBigramContext prev [] results = Some results"
| "scan_bucket st k normalizedQuery th hasBigramContext prev (ref # bucket) results =
     (case hanzi (objects st ! ref) of
        None \<Rightarrow> scan_bucket st k normalizedQuery th hasBigramContext prev bucket results
      | Some h \<Rightarrow>
          if h = [] then scan_bucket st k normalizedQuery th hasBigramContext prev bucket results
          else
            (case get_searchable k (objects st ! ref) of
               None \<Rightarrow> None
             | Some target \<Rightarrow>
                 if max (length normalizedQuery) (length target) \<noteq> 0 \<and>
                    similarityScore normalizedQuery target \<ge> th
                 then
                   scan_bucket st k normalizedQuery th hasBigramContext prev bucket
                     (results @
                       [\<lparr>item = ref, score = similarityScore normalizedQuery target,
                         bigramScore =
                           (if hasBigramContext
                            then (case prev of
                                    None \<Rightarrow> 0
                                  | Some p \<Rightarrow> lookup_bigram (bigramProbabilities st) p h)
                            else 0)\<rparr>])
                 else scan_bucket st k normalizedQuery th hasBigramContext prev bucket results))"

text \<open>
  The loop over the lengths \<open>len\<close> from \<open>Math.max(1, queryLength - lengthTolerance)\<close> up to
  \<open>queryLength + lengthTolerance\<close>; a length without a bucket is skipped.
\<close>

fun scan_lengths ::
  "worker_state \<Rightarrow> string \<Rightarrow> bucket_group \<Rightarrow> jsstring \<Rightarrow> rat \<Rightarrow> bool \<Rightarrow> jsstring option \<Rightarrow>
   int list \<Rightarrow> nat search_result list \<Rightarrow> nat search_result list option" where
  "scan_lengths st k buckets normalizedQuery th hasBigramContext prev [] results = Some results"
| "scan_lengths st k buckets normalizedQuery th hasBigramContext prev (len # lens) results =
     (case buckets (nat len) of
        None \<Rightarrow> scan_lengths st k buckets normalizedQuery th hasBigramContext prev lens results
      | Some bucket \<Rightarrow>
          (case scan_bucket st k normalizedQuery th hasBigramContext prev bucket results of
             None \<Rightarrow> None
           | Some results1 \<Rightarrow>
               scan_lengths st k buckets normalizedQuery th hasBigramContext prev lens results1))"

text \<open>
  The comparator given to \<open>sort\<close>, and \<open>Array.prototype.sort\<close> itself, which is not code of
  the repository: ECMAScript requires a stable sort that follows the comparator, here an
  insertion sort that keeps an element before the later elements it does not have to follow.
\<close>

definition compare_results :: "'i search_result \<Rightarrow> 'i search_result \<Rightarrow> rat" where
  "compare_results a b =
     (if score b \<noteq> score a then score b - score a else bigramScore b - bigramScore a)"

fun insert_sorted :: "('a \<Rightarrow> 'a \<Rightarrow> rat) \<Rightarrow> 'a \<Rightarrow> 'a list \<Rightarrow> 'a list" where
  "insert_sorted cmp x [] = [x]"
| "insert_sorted cmp x (y # ys) =
     (if cmp x y \<le> 0 then x # y # ys else y # insert_sorted cmp x ys)"

fun js_sort :: "('a \<Rightarrow> 'a \<Rightarrow> rat) \<Rightarrow> 'a list \<Rightarrow> 'a list" where
  "js_sort cmp [] = []"
| "js_sort cmp (x # xs) = insert_sorted cmp x (js_sort cmp xs)"

text \<open>
  The results before the sort, and \<open>performSearch\<close>.  The defaults of the options are
  \<open>0.6\<close> and \<open>2\<close>; an empty query, a missing or empty key and a key without a group of
  buckets give the empty list.
\<close>

definition collect_results ::
  "(jsstring \<Rightarrow> jsstring) \<Rightarrow> worker_state \<Rightarrow> jsstring \<Rightarrow> search_options \<Rightarrow> jsstring option \<Rightarrow>
   nat search_result list option" where
  "collect_results lc st q opts prev =
     (let th = (case threshold opts of None \<Rightarrow> 3 / 5 | Some t \<Rightarrow> t);
          tolerance = (case lengthTolerance opts of None \<Rightarrow> 2 | Some t \<Rightarrow> t)
      in if q = [] then Some []
         else
           (case key opts of
              None \<Rightarrow> Some []
            | Some k \<Rightarrow>
                if k = [] then Some []
                else
                  (case searchIndex st k of
                     None \<Rightarrow> Some []
                   | Some buckets \<Rightarrow>
                       (let normalizedQuery = lc q;
                            queryLength = length normalizedQuery;
                            hasBigramContext =
                              (case prev of
                                 None \<Rightarrow> False
                               | Some p \<Rightarrow> p \<noteq> [] \<and> bigramProbabilities st p \<noteq> None)
                        in scan_lengths st k buckets normalizedQuery th hasBigramContext prev
                             [max 1 (int queryLength - tolerance)..int queryLength + tolerance]
                             []))))"

definition performSearch ::
  "(jsstring \<Rightarrow> jsstring) \<Rightarrow> worker_state \<Rightarrow> jsstring \<Rightarrow> search_options \<Rightarrow> jsstring option \<Rightarrow>
   nat search_result list option" where
  "performSearch lc st q opts prev =
     map_option (js_sort compare_results) (collect_results lc st q opts prev)"

section \<open>The worker: \<open>onmessage\<close>\<close>

text \<open>
  The handler, with the outcome of the fetches that an \<open>init\<close> message starts.  A message
  is handled to its end before the next one; the interleaving of two handlers at an
  \<open>await\<close> is outside the model.  Posting a result list clones the records it refers to.
  When \<open>performSearch\<close> throws, the promise of the handler is rejected and nothing is posted.
\<close>

definition clone :: "worker_state \<Rightarrow> nat search_result \<Rightarrow> dict_record search_result" where
  "clone st r = \<lparr>item = objects st ! item r, score = score r, bigramScore = bigramScore r\<rparr>"

fun onmessage ::
  "(jsstring \<Rightarrow> jsstring) \<Rightarrow> fetch_outcome \<Rightarrow> worker_state \<Rightarrow> worker_request \<Rightarrow>
   worker_state \<times> effect list" where
  "onmessage lc env st init_msg =
     (case initialize lc env st of
        (st1, logs, None) \<Rightarrow> (st1, logs @ [post init_success])
      | (st1, logs, Some err) \<Rightarrow> (st1, logs @ [console_error err, post (init_error err)]))"
| "onmessage lc env st (search_msg payload searchId) =
     (case performSearch lc st (query payload) (options payload) (previousWordHanzi payload) of
        None \<Rightarrow> (st, [])
      | Some results \<Rightarrow> (st, [post (search_results (map (clone st) results) searchId)]))"
| "onmessage lc env st other_request = (st, [])"

text \<open>
  A run of the worker from its first state: the messages with the outcome of the fetches
  each would start, the state reached and the effects, oldest first.
\<close>

fun worker_run ::
  "(jsstring \<Rightarrow> jsstring) \<Rightarrow> worker_state \<Rightarrow> (fetch_outcome \<times> worker_request) list \<Rightarrow>
   worker_state \<times> effect list" where
  "worker_run lc st [] = (st, [])"
| "worker_run lc st ((env, m) # ms) =
     (case onmessage lc env st m of
        (st1, effects) \<Rightarrow>
          (case worker_run lc st1 ms of (st2, effects2) \<Rightarrow> (st2, effects @ effects2)))"

section \<open>Properties of the initialization\<close>

subsection \<open>What the indexing loop builds\<close>

text \<open>
  The normalized form that the loop stores for a key of a record, if it stores one, and the
  length under which the record is then filed.
\<close>

definition searchable_form :: "(jsstring \<Rightarrow> jsstring) \<Rightarrow> string \<Rightarrow> dict_record \<Rightarrow> jsstring option" where
  "searchable_form lc k r =
     (case get_field k r of
        None \<Rightarrow> None
      | Some target \<Rightarrow>
          if target = [] \<or> lc (strip_digits (trim target)) = [] then None
          else Some (lc (strip_digits (trim target))))"

definition filed_under :: "(jsstring \<Rightarrow> jsstring) \<Rightarrow> string \<Rightarrow> dict_record \<Rightarrow> nat \<Rightarrow> bool" where
  "filed_under lc k r len = (map_option length (searchable_form lc k r) = Some len)"

definition field_keys :: "string set" where
  "field_keys = {''pinyin'', ''hanzi''}"

text \<open>
  The state \<open>st\<close> of the loop, started in \<open>st0\<close>.  The frame: the store keeps its size and
  the source fields of its records, and nothing but the records and the two groups of
  buckets changes.  For a key and the records \<open>seen\<close> under it: these records carry their
  normalized form, the others are as before, and each bucket has grown by the records seen
  that are filed under its length, in their order.
\<close>

definition index_frame :: "worker_state \<Rightarrow> worker_state \<Rightarrow> bool" where
  "index_frame st0 st =
     (length (objects st) = length (objects st0) \<and>
      dictionary st = dictionary st0 \<and>
      bigramProbabilities st = bigramProbabilities st0 \<and>
      (\<forall>i. pinyin (objects st ! i) = pinyin (objects st0 ! i) \<and>
           hanzi (objects st ! i) = hanzi (objects st0 ! i)) \<and>
      (\<forall>k. k \<notin> field_keys \<longrightarrow> searchIndex st k = searchIndex st0 k))"

definition key_indexed ::
  "(jsstring \<Rightarrow> jsstring) \<Rightarrow> string \<Rightarrow> worker_state \<Rightarrow> nat list \<Rightarrow> worker_state \<Rightarrow> bool" where
  "key_indexed lc k st0 seen st =
     ((\<forall>ref \<in> set seen. \<forall>s.
         searchable_form lc k (objects st0 ! ref) = Some s \<longrightarrow>
         get_searchable k (objects st ! ref) = Some s) \<and>
      (\<forall>i. i \<notin> set seen \<longrightarrow>
         get_searchable k (objects st ! i) = get_searchable k (objects st0 ! i)) \<and>
      (\<exists>g0 g.
         searchIndex st0 k = Some g0 \<and> searchIndex st k = Some g \<and>
         (\<forall>len. bucket_of g len =
                  bucket_of g0 len @ filter (\<lambda>ref. filed_under lc k (objects st0 ! ref) len) seen \<and>
                (g len = None) =
                  (g0 len = None \<and>
                   filter (\<lambda>ref. filed_under lc k (objects st0 ! ref) len) seen = []))))"

lemma index_key_eq:
  assumes "searchIndex st k = Some g"
  shows "index_key lc ref k st =
     (case searchable_form lc k (objects st ! ref) of
        None \<Rightarrow> (st, None)
      | Some s \<Rightarrow>
          (st\<lparr>objects := (objects st)[ref := set_searchable k s (objects st ! ref)],
              searchIndex := (searchIndex st)(k \<mapsto> g(length s \<mapsto> bucket_of g (length s) @ [ref]))\<rparr>,
           None))"
  using assms by (simp add: index_key_def searchable_form_def Let_def split: option.splits)

lemma get_field_set_searchable [simp]:
  "get_field k' (set_searchable k s r) = get_field k' r"
  by (simp add: get_field_def set_searchable_def)

lemma searchable_form_set_searchable [simp]:
  "searchable_form lc k' (set_searchable k s r) = searchable_form lc k' r"
  by (simp add: searchable_form_def)

lemma source_set_searchable [simp]:
  "pinyin (set_searchable k s r) = pinyin r" "hanzi (set_searchable k s r) = hanzi r"
  by (simp_all add: set_searchable_def)

lemma get_searchable_set_searchable:
  "k \<in> field_keys \<Longrightarrow>
   get_searchable k' (set_searchable k s r) = (if k' = k then Some s else get_searchable k' r)"
  by (auto simp add: get_searchable_def set_searchable_def field_keys_def)

lemma searchable_form_cong:
  "pinyin r = pinyin r' \<Longrightarrow> hanzi r = hanzi r' \<Longrightarrow>
   searchable_form lc k r = searchable_form lc k r'"
  by (simp add: searchable_form_def get_field_def)

lemma filed_under_iff:
  "filed_under lc k r len = (\<exists>s. searchable_form lc k r = Some s \<and> length s = len)"
  by (cases "searchable_form lc k r") (simp_all add: filed_under_def)

lemma index_frame_refl: "index_frame st st"
  by (simp add: index_frame_def)

lemma key_indexed_start:
  assumes "searchIndex st0 k = Some g"
  shows "key_indexed lc k st0 [] st0"
  using assms by (simp add: key_indexed_def)

lemma index_key_step:
  assumes fr: "index_frame st0 st" and ki: "key_indexed lc k st0 seen st"
    and k: "k \<in> field_keys" and ref: "ref < length (objects st)" "ref \<notin> set seen"
  shows "\<exists>st'. index_key lc ref k st = (st', None) \<and> index_frame st0 st' \<and>
           key_indexed lc k st0 (seen @ [ref]) st' \<and>
           (\<forall>k' seen'. k' \<noteq> k \<longrightarrow> key_indexed lc k' st0 seen' st \<longrightarrow>
              key_indexed lc k' st0 seen' st')"
proof -
  obtain g0 g where g0: "searchIndex st0 k = Some g0" and g: "searchIndex st k = Some g"
    and buckets: "\<And>len. bucket_of g len =
        bucket_of g0 len @ filter (\<lambda>ref. filed_under lc k (objects st0 ! ref) len) seen"
    and nones: "\<And>len. (g len = None) =
        (g0 len = None \<and> filter (\<lambda>ref. filed_under lc k (objects st0 ! ref) len) seen = [])"
    using ki unfolding key_indexed_def by blast
  have src: "pinyin (objects st ! i) = pinyin (objects st0 ! i)"
            "hanzi (objects st ! i) = hanzi (objects st0 ! i)" for i
    using fr by (simp_all add: index_frame_def)
  have form: "searchable_form lc k (objects st ! ref) = searchable_form lc k (objects st0 ! ref)"
    by (rule searchable_form_cong) (simp_all add: src)
  show ?thesis
  proof (cases "searchable_form lc k (objects st0 ! ref)")
    case None
    then have not_filed: "\<not> filed_under lc k (objects st0 ! ref) len" for len
      by (simp add: filed_under_def)
    have "index_key lc ref k st = (st, None)"
      using g form None by (simp add: index_key_eq)
    moreover have "key_indexed lc k st0 (seen @ [ref]) st"
      using ki None not_filed unfolding key_indexed_def
      by (auto simp add: g0 g)
    ultimately show ?thesis using fr by simp
  next
    case (Some s)
    let ?r = "set_searchable k s (objects st ! ref)"
    let ?st = "st\<lparr>objects := (objects st)[ref := ?r],
        searchIndex := (searchIndex st)(k \<mapsto> g(length s \<mapsto> bucket_of g (length s) @ [ref]))\<rparr>"
    have filed: "filed_under lc k (objects st0 ! ref) len = (len = length s)" for len
      using Some by (auto simp add: filed_under_def)
    have run: "index_key lc ref k st = (?st, None)"
      using g form Some by (simp add: index_key_eq)
    have nth: "(objects st)[ref := ?r] ! i = (if i = ref then ?r else objects st ! i)" for i
      using ref(1) by simp
    have frame: "index_frame st0 ?st"
      using fr k unfolding index_frame_def by (auto simp add: nth)
    have bucket: "bucket_of (g(length s \<mapsto> bucket_of g (length s) @ [ref])) len =
        bucket_of g0 len @ filter (\<lambda>ref. filed_under lc k (objects st0 ! ref) len) (seen @ [ref])"
      for len
      using buckets [of len] by (auto simp add: bucket_of_def filed)
    have none: "((g(length s \<mapsto> bucket_of g (length s) @ [ref])) len = None) =
        (g0 len = None \<and>
         filter (\<lambda>ref. filed_under lc k (objects st0 ! ref) len) (seen @ [ref]) = [])" for len
      using nones [of len] by (auto simp add: filed)
    have here: "key_indexed lc k st0 (seen @ [ref]) ?st"
      unfolding key_indexed_def
    proof (intro conjI exI ballI allI impI)
      show "searchIndex st0 k = Some g0" by (fact g0)
      show "searchIndex ?st k = Some (g(length s \<mapsto> bucket_of g (length s) @ [ref]))" by simp
      show "bucket_of (g(length s \<mapsto> bucket_of g (length s) @ [ref])) len =
        bucket_of g0 len @ filter (\<lambda>ref. filed_under lc k (objects st0 ! ref) len) (seen @ [ref])"
        for len by (fact bucket)
      show "((g(length s \<mapsto> bucket_of g (length s) @ [ref])) len = None) =
        (g0 len = None \<and>
         filter (\<lambda>ref. filed_under lc k (objects st0 ! ref) len) (seen @ [ref]) = [])" for len
        by (fact none)
    next
      fix r' s' assume "r' \<in> set (seen @ [ref])"
        and "searchable_form lc k (objects st0 ! r') = Some s'"
      then show "get_searchable k (objects ?st ! r') = Some s'"
        using ki Some k unfolding key_indexed_def
        by (auto simp add: nth get_searchable_set_searchable)
    next
      fix i assume "i \<notin> set (seen @ [ref])"
      then show "get_searchable k (objects ?st ! i) = get_searchable k (objects st0 ! i)"
        using ki unfolding key_indexed_def by (auto simp add: nth)
    qed
    have other: "key_indexed lc k' st0 seen' ?st"
      if "k' \<noteq> k" "key_indexed lc k' st0 seen' st" for k' seen'
      using that k unfolding key_indexed_def
      by (auto simp add: nth get_searchable_set_searchable)
    show ?thesis using run frame here other by blast
  qed
qed


lemma index_keys_step:
  assumes fr: "index_frame st0 st"
    and kp: "key_indexed lc ''pinyin'' st0 seen st"
    and kh: "key_indexed lc ''hanzi'' st0 seen st"
    and ref: "ref < length (objects st)" "ref \<notin> set seen"
  shows "\<exists>st'. index_keys lc ref [''pinyin'', ''hanzi''] st = (st', None) \<and>
           index_frame st0 st' \<and>
           key_indexed lc ''pinyin'' st0 (seen @ [ref]) st' \<and>
           key_indexed lc ''hanzi'' st0 (seen @ [ref]) st'"
proof -
  have keys: "''pinyin'' \<in> field_keys" "''hanzi'' \<in> field_keys"
    by (simp_all add: field_keys_def)
  obtain st1 where run1: "index_key lc ref ''pinyin'' st = (st1, None)"
    and fr1: "index_frame st0 st1"
    and kp1: "key_indexed lc ''pinyin'' st0 (seen @ [ref]) st1"
    and other1: "\<And>k' seen'. k' \<noteq> ''pinyin'' \<Longrightarrow> key_indexed lc k' st0 seen' st \<Longrightarrow>
        key_indexed lc k' st0 seen' st1"
    using index_key_step [OF fr kp keys(1) ref] by blast
  have kh1: "key_indexed lc ''hanzi'' st0 seen st1"
    using kh by (intro other1) simp_all
  have ref1: "ref < length (objects st1)"
    using ref(1) fr fr1 by (simp add: index_frame_def)
  obtain st2 where run2: "index_key lc ref ''hanzi'' st1 = (st2, None)"
    and fr2: "index_frame st0 st2"
    and kh2: "key_indexed lc ''hanzi'' st0 (seen @ [ref]) st2"
    and other2: "\<And>k' seen'. k' \<noteq> ''hanzi'' \<Longrightarrow> key_indexed lc k' st0 seen' st1 \<Longrightarrow>
        key_indexed lc k' st0 seen' st2"
    using index_key_step [OF fr1 kh1 keys(2) ref1 ref(2)] by blast
  have kp2: "key_indexed lc ''pinyin'' st0 (seen @ [ref]) st2"
    using kp1 by (intro other2) simp_all
  have "index_keys lc ref [''pinyin'', ''hanzi''] st = (st2, None)"
    by (simp add: run1 run2)
  then show ?thesis using fr2 kp2 kh2 by blast
qed

lemma index_records_loop:
  assumes "index_frame st0 st"
    and "key_indexed lc ''pinyin'' st0 seen st"
    and "key_indexed lc ''hanzi'' st0 seen st"
    and "distinct (seen @ refs)"
    and "\<forall>ref \<in> set refs. ref < length (objects st0)"
  shows "\<exists>st'. index_records lc refs st = (st', None) \<and>
           index_frame st0 st' \<and>
           key_indexed lc ''pinyin'' st0 (seen @ refs) st' \<and>
           key_indexed lc ''hanzi'' st0 (seen @ refs) st'"
  using assms
proof (induction refs arbitrary: seen st)
  case Nil
  then show ?case by simp
next
  case (Cons ref refs)
  have len: "length (objects st) = length (objects st0)"
    using Cons.prems(1) by (simp add: index_frame_def)
  have "ref < length (objects st)" "ref \<notin> set seen"
    using Cons.prems(4,5) len by simp_all
  from index_keys_step [OF Cons.prems(1,2,3) this]
  obtain st1 where run1: "index_keys lc ref [''pinyin'', ''hanzi''] st = (st1, None)"
    and fr1: "index_frame st0 st1"
    and kp1: "key_indexed lc ''pinyin'' st0 (seen @ [ref]) st1"
    and kh1: "key_indexed lc ''hanzi'' st0 (seen @ [ref]) st1"
    by blast
  have "distinct ((seen @ [ref]) @ refs)" "\<forall>ref \<in> set refs. ref < length (objects st0)"
    using Cons.prems(4,5) by simp_all
  from Cons.IH [OF fr1 kp1 kh1 this]
  obtain st' where "index_records lc refs st1 = (st', None)" "index_frame st0 st'"
    "key_indexed lc ''pinyin'' st0 ((seen @ [ref]) @ refs) st'"
    "key_indexed lc ''hanzi'' st0 ((seen @ [ref]) @ refs) st'"
    by blast
  then show ?case using run1 by simp
qed

text \<open>The state in which the indexing loop of a successful initialization starts.\<close>

definition loaded_state :: "dict_record list \<Rightarrow> bigram_table \<Rightarrow> worker_state \<Rightarrow> worker_state" where
  "loaded_state d b st =
     (parse_dictionary d st)\<lparr>bigramProbabilities := b,
        searchIndex := [''pinyin'' \<mapsto> Map.empty, ''hanzi'' \<mapsto> Map.empty]\<rparr>"

lemma initialize_loaded:
  "\<exists>st'. initialize lc (loaded d b) st =
           (st', [console_log ''[Worker] Loading data...'',
                  console_log ''[Worker] Pre-processing and indexing data...'',
                  console_log ''[Worker] Indexing complete.''], None) \<and>
         index_frame (loaded_state d b st) st' \<and>
         key_indexed lc ''pinyin'' (loaded_state d b st) (dictionary (loaded_state d b st)) st' \<and>
         key_indexed lc ''hanzi'' (loaded_state d b st) (dictionary (loaded_state d b st)) st'"
proof -
  let ?st3 = "loaded_state d b st"
  have "index_frame ?st3 ?st3" by (rule index_frame_refl)
  moreover have "key_indexed lc ''pinyin'' ?st3 [] ?st3" "key_indexed lc ''hanzi'' ?st3 [] ?st3"
    by (rule key_indexed_start, simp add: loaded_state_def)+
  moreover have "distinct ([] @ dictionary ?st3)"
    by (simp add: loaded_state_def parse_dictionary_def)
  moreover have "\<forall>ref \<in> set (dictionary ?st3). ref < length (objects ?st3)"
    by (simp add: loaded_state_def parse_dictionary_def)
  ultimately obtain st' where "index_records lc (dictionary ?st3) ?st3 = (st', None)"
    and "index_frame ?st3 st'"
    and "key_indexed lc ''pinyin'' ?st3 ([] @ dictionary ?st3) st'"
    and "key_indexed lc ''hanzi'' ?st3 ([] @ dictionary ?st3) st'"
    using index_records_loop [of ?st3 ?st3 lc "[]" "dictionary ?st3"] by blast
  then show ?thesis
    by (simp add: initialize_def Let_def loaded_state_def)
qed


lemma count_list_distinct: "distinct xs \<Longrightarrow> x \<in> set xs \<Longrightarrow> count_list xs x = 1"
  by (induction xs) auto

lemma count_list_filter: "count_list (filter P xs) x = (if P x then count_list xs x else 0)"
  by (induction xs) auto

text \<open>
  C6.  After an initialization whose data is loaded, every record of the dictionary whose
  field under a key (\<open>pinyin\<close> or \<open>hanzi\<close>) is a non-empty string with a non-empty
  normalized form (trimmed, digits removed, lower case) keeps its source fields, carries that
  form, and is found in the bucket of that key under the length of the form, once, and in
  no other bucket of the key.  Nothing is asked of the other field of the record.
\<close>

theorem index_completeness:
  assumes i: "i < length d"
    and k: "k = ''pinyin'' \<or> k = ''hanzi''"
    and target: "get_field k (d ! i) = Some t"
    and nonempty: "t \<noteq> []"
    and normalized: "lc (strip_digits (trim t)) \<noteq> []"
  shows "(let st' = fst (initialize lc (loaded d b) st);
              ref = length (objects st) + i;
              s = lc (strip_digits (trim t))
          in snd (snd (initialize lc (loaded d b) st)) = None \<and>
             ref \<in> set (dictionary st') \<and>
             pinyin (objects st' ! ref) = pinyin (d ! i) \<and>
             hanzi (objects st' ! ref) = hanzi (d ! i) \<and>
             get_searchable k (objects st' ! ref) = Some s \<and>
             (\<exists>g. searchIndex st' k = Some g \<and>
                  g (length s) = Some (bucket_of g (length s)) \<and>
                  count_list (bucket_of g (length s)) ref = 1 \<and>
                  (\<forall>len. (ref \<in> set (bucket_of g len)) = (len = length s))))"
proof -
  let ?st3 = "loaded_state d b st"
  let ?ref = "length (objects st) + i"
  let ?s = "lc (strip_digits (trim t))"
  let ?refs = "[length (objects st)..<length (objects st) + length d]"
  obtain st' where run: "initialize lc (loaded d b) st =
        (st', [console_log ''[Worker] Loading data...'',
               console_log ''[Worker] Pre-processing and indexing data...'',
               console_log ''[Worker] Indexing complete.''], None)"
    and fr: "index_frame ?st3 st'"
    and kp: "key_indexed lc ''pinyin'' ?st3 (dictionary ?st3) st'"
    and kh: "key_indexed lc ''hanzi'' ?st3 (dictionary ?st3) st'"
    using initialize_loaded [of lc d b st] by blast
  have ki: "key_indexed lc k ?st3 (dictionary ?st3) st'"
    using k kp kh by blast
  have dict: "dictionary ?st3 = ?refs"
    by (simp add: loaded_state_def parse_dictionary_def)
  have obj: "objects ?st3 ! ?ref = d ! i"
    by (simp add: loaded_state_def parse_dictionary_def nth_append)
  have mem: "?ref \<in> set ?refs" using i by simp
  have form: "searchable_form lc k (d ! i) = Some ?s"
    using target nonempty normalized by (simp add: searchable_form_def)
  have filed: "filed_under lc k (objects ?st3 ! ?ref) len = (len = length ?s)" for len
    using form by (auto simp add: filed_under_def obj)
  obtain g0 g where g0: "searchIndex ?st3 k = Some g0" and g: "searchIndex st' k = Some g"
    and buckets: "\<And>len. bucket_of g len =
        bucket_of g0 len @ filter (\<lambda>ref. filed_under lc k (objects ?st3 ! ref) len) ?refs"
    and nones: "\<And>len. (g len = None) =
        (g0 len = None \<and> filter (\<lambda>ref. filed_under lc k (objects ?st3 ! ref) len) ?refs = [])"
    using ki unfolding key_indexed_def dict by blast
  have "g0 = Map.empty"
    using g0 k by (auto simp add: loaded_state_def)
  then have bucket: "bucket_of g len =
      filter (\<lambda>ref. filed_under lc k (objects ?st3 ! ref) len) ?refs" for len
    using buckets [of len] by (simp add: bucket_of_def)
  have in_bucket: "(?ref \<in> set (bucket_of g len)) = (len = length ?s)" for len
    unfolding bucket using mem filed by simp
  have once: "count_list (bucket_of g (length ?s)) ?ref = 1"
    unfolding bucket count_list_filter using mem filed
    by (simp add: count_list_distinct)
  have "g (length ?s) \<noteq> None"
    using nones [of "length ?s"] in_bucket [of "length ?s"] unfolding bucket
    by (auto simp add: filter_empty_conv)
  then have some: "g (length ?s) = Some (bucket_of g (length ?s))"
    by (auto simp add: bucket_of_def)
  have src: "pinyin (objects st' ! ?ref) = pinyin (d ! i)" "hanzi (objects st' ! ?ref) = hanzi (d ! i)"
    using fr obj by (simp_all add: index_frame_def)
  have searchable: "get_searchable k (objects st' ! ?ref) = Some ?s"
    using ki form mem unfolding key_indexed_def dict obj [symmetric] by blast
  have "dictionary st' = ?refs"
    using fr dict by (simp add: index_frame_def)
  then have "?ref \<in> set (dictionary st')" using mem by simp
  then show ?thesis
    unfolding Let_def run using src searchable g some once in_bucket by simp
qed


theorem index_completeness_witness:
  "(0::nat) < length [\<lparr>pinyin = Some [0x4E, 0x69, 0x33], hanzi = None,
                        searchable_pinyin = None, searchable_hanzi = None\<rparr>,
                      \<lparr>pinyin = Some [0x6C, 0x69, 0x33], hanzi = Some [0x674E],
                        searchable_pinyin = None, searchable_hanzi = None\<rparr>] \<and>
   get_field ''pinyin''
     ([\<lparr>pinyin = Some [0x4E, 0x69, 0x33], hanzi = None,
        searchable_pinyin = None, searchable_hanzi = None\<rparr>,
       \<lparr>pinyin = Some [0x6C, 0x69, 0x33], hanzi = Some [0x674E],
        searchable_pinyin = None, searchable_hanzi = None\<rparr>] ! 0) = Some [0x4E, 0x69, 0x33] \<and>
   lower_ascii (strip_digits (trim [0x4E, 0x69, 0x33])) = [0x6E, 0x69] \<and>
   get_searchable ''pinyin''
     (objects (fst (initialize lower_ascii
        (loaded [\<lparr>pinyin = Some [0x4E, 0x69, 0x33], hanzi = None,
                  searchable_pinyin = None, searchable_hanzi = None\<rparr>,
                 \<lparr>pinyin = Some [0x6C, 0x69, 0x33], hanzi = Some [0x674E],
                  searchable_pinyin = None, searchable_hanzi = None\<rparr>] Map.empty)
        initial_state)) ! 0) = Some [0x6E, 0x69] \<and>
   (\<exists>g. searchIndex (fst (initialize lower_ascii
        (loaded [\<lparr>pinyin = Some [0x4E, 0x69, 0x33], hanzi = None,
                  searchable_pinyin = None, searchable_hanzi = None\<rparr>,
                 \<lparr>pinyin = Some [0x6C, 0x69, 0x33], hanzi = Some [0x674E],
                  searchable_pinyin = None, searchable_hanzi = None\<rparr>] Map.empty)
        initial_state)) ''pinyin'' = Some g \<and>
      count_list (bucket_of g 2) 0 = 1 \<and> 0 \<notin> set (bucket_of g 3))"
proof -
  let ?d = "[\<lparr>pinyin = Some [0x4E, 0x69, 0x33], hanzi = None,
               searchable_pinyin = None, searchable_hanzi = None\<rparr>,
             \<lparr>pinyin = Some [0x6C, 0x69, 0x33], hanzi = Some [0x674E],
               searchable_pinyin = None, searchable_hanzi = None\<rparr>]"
  have h1: "(0::nat) < length ?d" by simp
  have h2: "''pinyin'' = ''pinyin'' \<or> ''pinyin'' = ''hanzi''" by simp
  have h3: "get_field ''pinyin'' (?d ! 0) = Some [0x4E, 0x69, 0x33]"
    by (simp add: get_field_def)
  have h4: "[0x4E, 0x69, 0x33 :: 16 word] \<noteq> []" by simp
  have s: "lower_ascii (strip_digits (trim [0x4E, 0x69, 0x33])) = [0x6E, 0x69]"
    by (simp add: trim_def strip_digits_def lower_ascii_def is_whitespace_def)
  then have h5: "lower_ascii (strip_digits (trim [0x4E, 0x69, 0x33])) \<noteq> []" by simp
  from index_completeness [where i = 0 and d = ?d and k = "''pinyin''"
      and t = "[0x4E, 0x69, 0x33]" and lc = lower_ascii and b = Map.empty
      and st = initial_state, OF h1 h2 h3 h4 h5]
  have "get_searchable ''pinyin''
     (objects (fst (initialize lower_ascii (loaded ?d Map.empty) initial_state)) ! 0) =
       Some [0x6E, 0x69] \<and>
     (\<exists>g. searchIndex (fst (initialize lower_ascii (loaded ?d Map.empty) initial_state))
            ''pinyin'' = Some g \<and>
        count_list (bucket_of g 2) 0 = 1 \<and> 0 \<notin> set (bucket_of g 3))"
    unfolding Let_def s by (auto simp add: initial_state_def numeral_2_eq_2 numeral_3_eq_3)
  with h1 h3 s show ?thesis by blast
qed

section \<open>Properties of the search\<close>

subsection \<open>The invariant of the index\<close>

text \<open>
  Every reference in a bucket points into the store, at a record that carries a searchable
  form under the key of the bucket, of the length of the bucket.
\<close>

definition index_ok :: "worker_state \<Rightarrow> bool" where
  "index_ok st =
     (\<forall>k g len bucket. searchIndex st k = Some g \<longrightarrow> g len = Some bucket \<longrightarrow>
        (\<forall>ref \<in> set bucket. ref < length (objects st) \<and>
           (\<exists>s. get_searchable k (objects st ! ref) = Some s \<and> length s = len)))"

lemma index_okD:
  assumes "index_ok st" and "searchIndex st k = Some g" and "ref \<in> set (bucket_of g len)"
  shows "ref < length (objects st) \<and>
         (\<exists>s. get_searchable k (objects st ! ref) = Some s \<and> length s = len)"
proof (cases "g len")
  case None
  then show ?thesis using assms(3) by (simp add: bucket_of_def)
next
  case (Some bucket)
  then have "ref \<in> set bucket" using assms(3) by (simp add: bucket_of_def)
  then show ?thesis using assms(1,2) Some unfolding index_ok_def by blast
qed

lemma index_ok_initial: "index_ok initial_state"
  by (simp add: index_ok_def initial_state_def)

lemma index_ok_parse_dictionary:
  assumes "index_ok st"
  shows "index_ok (parse_dictionary d st)"
  unfolding index_ok_def
proof (intro allI impI ballI)
  fix k g len bucket ref
  assume "searchIndex (parse_dictionary d st) k = Some g" "g len = Some bucket" "ref \<in> set bucket"
  then have "ref < length (objects st) \<and>
      (\<exists>s. get_searchable k (objects st ! ref) = Some s \<and> length s = len)"
    using assms unfolding index_ok_def by (auto simp add: parse_dictionary_def)
  then show "ref < length (objects (parse_dictionary d st)) \<and>
      (\<exists>s. get_searchable k (objects (parse_dictionary d st) ! ref) = Some s \<and> length s = len)"
    by (simp add: parse_dictionary_def nth_append)
qed

lemma index_ok_loaded:
  assumes fr: "index_frame (loaded_state d b st) st'"
    and kp: "key_indexed lc ''pinyin'' (loaded_state d b st) (dictionary (loaded_state d b st)) st'"
    and kh: "key_indexed lc ''hanzi'' (loaded_state d b st) (dictionary (loaded_state d b st)) st'"
  shows "index_ok st'"
  unfolding index_ok_def
proof (intro allI impI ballI)
  fix k g len bucket ref
  assume g: "searchIndex st' k = Some g" and bucket: "g len = Some bucket"
    and ref: "ref \<in> set bucket"
  let ?st3 = "loaded_state d b st"
  have field: "k \<in> field_keys"
  proof (rule ccontr)
    assume "k \<notin> field_keys"
    then have "searchIndex st' k = searchIndex ?st3 k" "searchIndex ?st3 k = None"
      using fr by (simp_all add: index_frame_def loaded_state_def field_keys_def)
    with g show False by simp
  qed
  then have ki: "key_indexed lc k ?st3 (dictionary ?st3) st'"
    using kp kh by (auto simp add: field_keys_def)
  have g0: "searchIndex ?st3 k = Some Map.empty"
    using field by (auto simp add: loaded_state_def field_keys_def)
  have "bucket_of g len =
      filter (\<lambda>ref. filed_under lc k (objects ?st3 ! ref) len) (dictionary ?st3)"
    using ki g g0 unfolding key_indexed_def by (auto simp add: bucket_of_def)
  then have "ref \<in> set (dictionary ?st3)" "filed_under lc k (objects ?st3 ! ref) len"
    using bucket ref by (auto simp add: bucket_of_def)
  then obtain s where "ref < length (objects ?st3)"
    "searchable_form lc k (objects ?st3 ! ref) = Some s" "length s = len"
    "ref \<in> set (dictionary ?st3)"
    by (auto simp add: filed_under_iff loaded_state_def parse_dictionary_def)
  moreover from this have "get_searchable k (objects st' ! ref) = Some s"
    using ki unfolding key_indexed_def by blast
  moreover have "length (objects st') = length (objects ?st3)"
    using fr by (simp add: index_frame_def)
  ultimately show "ref < length (objects st') \<and>
      (\<exists>s. get_searchable k (objects st' ! ref) = Some s \<and> length s = len)"
    by simp
qed

lemma index_ok_initialize:
  assumes "index_ok st"
  shows "index_ok (fst (initialize lc env st))"
proof (cases env)
  case (loaded d b)
  obtain st' where "fst (initialize lc (loaded d b) st) = st'"
    "index_frame (loaded_state d b st) st'"
    "key_indexed lc ''pinyin'' (loaded_state d b st) (dictionary (loaded_state d b st)) st'"
    "key_indexed lc ''hanzi'' (loaded_state d b st) (dictionary (loaded_state d b st)) st'"
    using initialize_loaded [of lc d b st] by force
  then show ?thesis using loaded index_ok_loaded by blast
qed (simp_all add: initialize_def assms index_ok_parse_dictionary)

lemma onmessage_state:
  "fst (onmessage lc env st m) = (case m of init_msg \<Rightarrow> fst (initialize lc env st) | _ \<Rightarrow> st)"
  by (cases m) (auto split: prod.splits option.splits)

lemma index_ok_onmessage:
  assumes "index_ok st"
  shows "index_ok (fst (onmessage lc env st m))"
proof -
  have "index_ok (case m of init_msg \<Rightarrow> fst (initialize lc env st) | _ \<Rightarrow> st)"
    using assms by (cases m) (simp_all add: index_ok_initialize)
  then show ?thesis by (simp only: onmessage_state)
qed

lemma worker_run_state:
  "fst (worker_run lc st ((env, m) # ms)) = fst (worker_run lc (fst (onmessage lc env st m)) ms)"
  by (simp split: prod.splits)

lemma index_ok_worker_run:
  "index_ok st \<Longrightarrow> index_ok (fst (worker_run lc st evs))"
proof (induction evs arbitrary: st)
  case Nil
  then show ?case by simp
next
  case (Cons ev evs)
  obtain env m where ev: "ev = (env, m)" by (cases ev)
  have "index_ok (fst (onmessage lc env st m))"
    using Cons.prems by (rule index_ok_onmessage)
  from Cons.IH [OF this] show ?case
    by (simp only: ev worker_run_state)
qed


subsection \<open>What the loops of the search collect\<close>

text \<open>
  The parts of a result, read off the record \<open>ref\<close>: whether its \<open>hanzi\<close> field is a
  non-empty string, its searchable form under the key, its \<open>hanzi\<close> string, the bigram score
  it gets in a context, and the test that lets it into the results.
\<close>

definition has_hanzi :: "worker_state \<Rightarrow> nat \<Rightarrow> bool" where
  "has_hanzi st ref = (case hanzi (objects st ! ref) of None \<Rightarrow> False | Some h \<Rightarrow> h \<noteq> [])"

definition target_of :: "worker_state \<Rightarrow> string \<Rightarrow> nat \<Rightarrow> jsstring" where
  "target_of st k ref = (case get_searchable k (objects st ! ref) of None \<Rightarrow> [] | Some t \<Rightarrow> t)"

definition hanzi_of :: "worker_state \<Rightarrow> nat \<Rightarrow> jsstring" where
  "hanzi_of st ref = (case hanzi (objects st ! ref) of None \<Rightarrow> [] | Some h \<Rightarrow> h)"

definition has_context :: "worker_state \<Rightarrow> jsstring option \<Rightarrow> bool" where
  "has_context st prev =
     (case prev of None \<Rightarrow> False | Some p \<Rightarrow> p \<noteq> [] \<and> bigramProbabilities st p \<noteq> None)"

definition context_score :: "worker_state \<Rightarrow> jsstring option \<Rightarrow> nat \<Rightarrow> rat" where
  "context_score st prev ref =
     (case prev of
        None \<Rightarrow> 0
      | Some p \<Rightarrow>
          if p = [] then 0 else lookup_bigram (bigramProbabilities st) p (hanzi_of st ref))"

definition accepted :: "worker_state \<Rightarrow> string \<Rightarrow> jsstring \<Rightarrow> rat \<Rightarrow> nat \<Rightarrow> bool" where
  "accepted st k nq th ref =
     (has_hanzi st ref \<and> max (length nq) (length (target_of st k ref)) \<noteq> 0 \<and>
      th \<le> similarityScore nq (target_of st k ref))"

definition result_for ::
  "worker_state \<Rightarrow> string \<Rightarrow> jsstring \<Rightarrow> jsstring option \<Rightarrow> nat \<Rightarrow> nat search_result" where
  "result_for st k nq prev ref =
     \<lparr>item = ref, score = similarityScore nq (target_of st k ref),
      bigramScore = context_score st prev ref\<rparr>"

text \<open>The references in the buckets of the lengths the search visits, in the order visited.\<close>

definition candidates :: "bucket_group \<Rightarrow> nat \<Rightarrow> int \<Rightarrow> nat list" where
  "candidates buckets queryLength tolerance =
     concat (map (\<lambda>len. bucket_of buckets (nat len))
       [max 1 (int queryLength - tolerance)..int queryLength + tolerance])"

lemma context_score_eq:
  "hanzi (objects st ! ref) = Some h \<Longrightarrow>
   (if has_context st prev
    then (case prev of None \<Rightarrow> 0 | Some p \<Rightarrow> lookup_bigram (bigramProbabilities st) p h)
    else 0) = context_score st prev ref"
  by (auto simp add: has_context_def context_score_def hanzi_of_def lookup_bigram_def
      split: option.splits)

lemma scan_bucket_eq:
  assumes "\<forall>ref \<in> set bucket. get_searchable k (objects st ! ref) \<noteq> None"
  shows "scan_bucket st k nq th (has_context st prev) prev bucket results =
     Some (results @ map (result_for st k nq prev) (filter (accepted st k nq th) bucket))"
  using assms
proof (induction bucket arbitrary: results)
  case Nil
  show ?case by simp
next
  case (Cons ref bucket)
  then obtain target where target: "get_searchable k (objects st ! ref) = Some target"
    by auto
  have rest: "scan_bucket st k nq th (has_context st prev) prev bucket rs =
      Some (rs @ map (result_for st k nq prev) (filter (accepted st k nq th) bucket))" for rs
    using Cons.prems by (intro Cons.IH) simp
  show ?case
  proof (cases "hanzi (objects st ! ref)")
    case None
    then have "\<not> accepted st k nq th ref" by (simp add: accepted_def has_hanzi_def)
    then show ?thesis using None by (simp add: rest)
  next
    case (Some h)
    show ?thesis
    proof (cases "h = []")
      case True
      then have "\<not> accepted st k nq th ref" using Some by (simp add: accepted_def has_hanzi_def)
      then show ?thesis using Some True by (simp add: rest)
    next
      case False
      have acc: "accepted st k nq th ref =
          (max (length nq) (length target) \<noteq> 0 \<and> th \<le> similarityScore nq target)"
        using Some False target by (simp add: accepted_def has_hanzi_def target_of_def)
      have res: "result_for st k nq prev ref =
          \<lparr>item = ref, score = similarityScore nq target,
           bigramScore =
             (if has_context st prev
              then (case prev of None \<Rightarrow> 0 | Some p \<Rightarrow> lookup_bigram (bigramProbabilities st) p h)
              else 0)\<rparr>"
        unfolding context_score_eq [OF Some] using target
        by (simp add: result_for_def target_of_def)
      show ?thesis
      proof (cases "accepted st k nq th ref")
        case True
        then show ?thesis
          using Some False target acc by (simp add: rest res [symmetric])
      next
        case no: False
        then show ?thesis
          using Some False target acc by (auto simp add: rest)
      qed
    qed
  qed
qed

lemma scan_lengths_eq:
  assumes "\<forall>len \<in> set lens. \<forall>bucket. buckets (nat len) = Some bucket \<longrightarrow>
      (\<forall>ref \<in> set bucket. get_searchable k (objects st ! ref) \<noteq> None)"
  shows "scan_lengths st k buckets nq th (has_context st prev) prev lens results =
     Some (results @ map (result_for st k nq prev) (filter (accepted st k nq th)
       (concat (map (\<lambda>len. bucket_of buckets (nat len)) lens))))"
  using assms
proof (induction lens arbitrary: results)
  case Nil
  show ?case by simp
next
  case (Cons len lens)
  have rest: "scan_lengths st k buckets nq th (has_context st prev) prev lens rs =
     Some (rs @ map (result_for st k nq prev) (filter (accepted st k nq th)
       (concat (map (\<lambda>len. bucket_of buckets (nat len)) lens))))" for rs
    using Cons.prems by (intro Cons.IH) simp
  show ?case
  proof (cases "buckets (nat len)")
    case None
    then show ?thesis by (simp add: rest bucket_of_def)
  next
    case (Some bucket)
    then have "\<forall>ref \<in> set bucket. get_searchable k (objects st ! ref) \<noteq> None"
      using Cons.prems by simp
    from scan_bucket_eq [OF this] show ?thesis
      using Some by (simp add: rest bucket_of_def)
  qed
qed


definition threshold_of :: "search_options \<Rightarrow> rat" where
  "threshold_of opts = (case threshold opts of None \<Rightarrow> 3 / 5 | Some t \<Rightarrow> t)"

definition tolerance_of :: "search_options \<Rightarrow> int" where
  "tolerance_of opts = (case lengthTolerance opts of None \<Rightarrow> 2 | Some t \<Rightarrow> t)"

lemma candidatesD:
  assumes ok: "index_ok st" and g: "searchIndex st k = Some buckets"
    and ref: "ref \<in> set (candidates buckets n tol)"
  shows "ref < length (objects st) \<and>
         (\<exists>s. get_searchable k (objects st ! ref) = Some s \<and> s \<noteq> [] \<and>
              max 1 (int n - tol) \<le> int (length s) \<and> int (length s) \<le> int n + tol \<and>
              ref \<in> set (bucket_of buckets (length s)))"
proof -
  obtain len where len: "max 1 (int n - tol) \<le> len" "len \<le> int n + tol"
    and mem: "ref \<in> set (bucket_of buckets (nat len))"
    using ref by (auto simp add: candidates_def)
  from index_okD [OF ok g mem] obtain s where "ref < length (objects st)"
    "get_searchable k (objects st ! ref) = Some s" "length s = nat len"
    by blast
  moreover from this len have "int (length s) = len" "s \<noteq> []" by auto
  ultimately show ?thesis using len mem by auto
qed


lemma collect_results_empty:
  assumes "q = [] \<or> key opts = None \<or> key opts = Some [] \<or>
     (\<exists>k. key opts = Some k \<and> searchIndex st k = None)"
  shows "collect_results lc st q opts prev = Some []"
  using assms by (auto simp add: collect_results_def Let_def split: option.splits)

lemma collect_results_eq:
  assumes ok: "index_ok st" and q: "q \<noteq> []" and k: "key opts = Some k"
    and g: "searchIndex st k = Some buckets"
  shows "collect_results lc st q opts prev =
     Some (map (result_for st k (lc q) prev)
       (filter (accepted st k (lc q) (threshold_of opts))
         (candidates buckets (length (lc q)) (tolerance_of opts))))"
proof (cases "k = []")
  case True
  let ?lens = "[max 1 (int (length (lc q)) - tolerance_of opts)..
      int (length (lc q)) + tolerance_of opts]"
  have "candidates buckets (length (lc q)) (tolerance_of opts) = []"
  proof (rule ccontr)
    assume "candidates buckets (length (lc q)) (tolerance_of opts) \<noteq> []"
    then have "hd (candidates buckets (length (lc q)) (tolerance_of opts)) \<in>
        set (candidates buckets (length (lc q)) (tolerance_of opts))"
      by (rule hd_in_set)
    from candidatesD [OF ok g this] show False
      using True by (simp add: get_searchable_def)
  qed
  then show ?thesis using True k q by (simp add: collect_results_def)
next
  case False
  let ?lens = "[max 1 (int (length (lc q)) - tolerance_of opts)..
      int (length (lc q)) + tolerance_of opts]"
  have "\<forall>len \<in> set ?lens. \<forall>bucket. buckets (nat len) = Some bucket \<longrightarrow>
      (\<forall>ref \<in> set bucket. get_searchable k (objects st ! ref) \<noteq> None)"
    using ok g unfolding index_ok_def by fastforce
  from scan_lengths_eq [OF this, of "lc q" "threshold_of opts" prev "[]"]
  show ?thesis
    using False k q g
    by (simp add: collect_results_def Let_def candidates_def has_context_def
        threshold_of_def tolerance_of_def)
qed

subsection \<open>The sort\<close>





lemma set_insert_sorted [simp]: "set (insert_sorted cmp x ys) = insert x (set ys)"
  by (induction ys) auto

lemma length_insert_sorted [simp]: "length (insert_sorted cmp x ys) = Suc (length ys)"
  by (induction ys) auto

lemma set_js_sort [simp]: "set (js_sort cmp xs) = set xs"
  by (induction xs) auto

lemma length_js_sort [simp]: "length (js_sort cmp xs) = length xs"
  by (induction xs) auto





subsection \<open>The results of \<open>performSearch\<close>\<close>

text \<open>The state of the worker after a sequence of messages.\<close>

definition state_after ::
  "(jsstring \<Rightarrow> jsstring) \<Rightarrow> (fetch_outcome \<times> worker_request) list \<Rightarrow> worker_state" where
  "state_after lc evs = fst (worker_run lc initial_state evs)"

text \<open>The group of buckets of a key, empty when the index has none.\<close>

definition group_of :: "worker_state \<Rightarrow> string \<Rightarrow> bucket_group" where
  "group_of st k = (case searchIndex st k of None \<Rightarrow> Map.empty | Some g \<Rightarrow> g)"

lemma index_ok_state_after: "index_ok (state_after lc evs)"
  unfolding state_after_def using index_ok_initial by (rule index_ok_worker_run)

lemma performSearch_empty:
  assumes "q = [] \<or> key opts = None \<or> (\<exists>k. key opts = Some k \<and> searchIndex st k = None)"
  shows "performSearch lc st q opts prev = Some []"
proof -
  have "collect_results lc st q opts prev = Some []"
    using assms by (intro collect_results_empty) blast
  then show ?thesis by (simp add: performSearch_def)
qed

lemma performSearch_eq:
  assumes "index_ok st" and "q \<noteq> []" and "key opts = Some k"
    and "searchIndex st k = Some buckets"
  shows "performSearch lc st q opts prev =
     Some (js_sort compare_results (map (result_for st k (lc q) prev)
       (filter (accepted st k (lc q) (threshold_of opts))
         (candidates buckets (length (lc q)) (tolerance_of opts)))))"
  using collect_results_eq [OF assms] by (simp add: performSearch_def)

lemma mset_insert_sorted [simp]: "mset (insert_sorted cmp x ys) = add_mset x (mset ys)"
  by (induction ys) auto




lemmas worker_eval =
  state_after_def initial_state_def initialize_def parse_dictionary_def index_key_def
  get_field_def set_searchable_def get_searchable_def bucket_of_def trim_def strip_digits_def
  lower_ascii_def is_whitespace_def Let_def upt_conv_Cons upto.simps
  performSearch_def collect_results_def similarityScore_def levenshteinDistance_edit_distance
  compare_results_def lookup_bigram_def candidates_def target_of_def has_hanzi_def
  threshold_of_def tolerance_of_def hanzi_of_def group_of_def




lemma performSearch_cases:
  assumes "index_ok st"
  obtains (none) "performSearch lc st q opts prev = Some []"
      and "collect_results lc st q opts prev = Some []"
  | (some) k buckets where "q \<noteq> []" and "key opts = Some k"
      and "searchIndex st k = Some buckets"
      and "collect_results lc st q opts prev =
        Some (map (result_for st k (lc q) prev)
          (filter (accepted st k (lc q) (threshold_of opts))
            (candidates buckets (length (lc q)) (tolerance_of opts))))"
      and "performSearch lc st q opts prev =
        Some (js_sort compare_results (map (result_for st k (lc q) prev)
          (filter (accepted st k (lc q) (threshold_of opts))
            (candidates buckets (length (lc q)) (tolerance_of opts)))))"
proof (cases "q = [] \<or> key opts = None \<or> (\<exists>k. key opts = Some k \<and> searchIndex st k = None)")
  case True
  then have "collect_results lc st q opts prev = Some []"
    by (intro collect_results_empty) blast
  moreover from True have "performSearch lc st q opts prev = Some []"
    by (rule performSearch_empty)
  ultimately show ?thesis using none by blast
next
  case False
  then obtain k buckets where "q \<noteq> []" "key opts = Some k" "searchIndex st k = Some buckets"
    by auto
  then show ?thesis
    using some collect_results_eq [OF assms] performSearch_eq [OF assms] by blast
qed

text \<open>
  C3.  In every state the worker reaches, every record that \<open>performSearch\<close> returns has a
  normalized field, under the key of the search, whose length lies between
  \<open>max(1, qLen - lengthTolerance)\<close> and \<open>qLen + lengthTolerance\<close>, where \<open>qLen\<close> is the length
  of the lowercased query; with a tolerance of \<open>0\<close> the length is exactly \<open>qLen\<close>.
\<close>

theorem performSearch_length_range:
  "\<exists>rs. performSearch lc (state_after lc evs) q opts prev = Some rs \<and>
     (\<forall>r \<in> set rs. \<exists>k s.
        key opts = Some k \<and>
        get_searchable k (objects (state_after lc evs) ! item r) = Some s \<and>
        max 1 (int (length (lc q)) - tolerance_of opts) \<le> int (length s) \<and>
        int (length s) \<le> int (length (lc q)) + tolerance_of opts \<and>
        (tolerance_of opts = 0 \<longrightarrow> length s = length (lc q)))"
proof -
  let ?st = "state_after lc evs"
  have ok: "index_ok ?st" by (rule index_ok_state_after)
  from ok show ?thesis
  proof (cases rule: performSearch_cases [where lc = lc and q = q and opts = opts and prev = prev])
    case none
    then show ?thesis by simp
  next
    case (some k buckets)
    let ?cands = "candidates buckets (length (lc q)) (tolerance_of opts)"
    have "\<exists>s. get_searchable k (objects ?st ! item r) = Some s \<and>
        max 1 (int (length (lc q)) - tolerance_of opts) \<le> int (length s) \<and>
        int (length s) \<le> int (length (lc q)) + tolerance_of opts \<and>
        (tolerance_of opts = 0 \<longrightarrow> length s = length (lc q))"
      if "r \<in> set (js_sort compare_results (map (result_for ?st k (lc q) prev)
          (filter (accepted ?st k (lc q) (threshold_of opts)) ?cands)))" for r
    proof -
      from that have "item r \<in> set ?cands" by (auto simp add: result_for_def)
      from candidatesD [OF ok some(3) this] obtain s
        where "get_searchable k (objects ?st ! item r) = Some s"
          and "max 1 (int (length (lc q)) - tolerance_of opts) \<le> int (length s)"
          and "int (length s) \<le> int (length (lc q)) + tolerance_of opts"
        by blast
      moreover from this have "tolerance_of opts = 0 \<longrightarrow> length s = length (lc q)" by auto
      ultimately show ?thesis by blast
    qed
    then show ?thesis using some(2,5) by blast
  qed
qed

theorem performSearch_length_range_witness:
  "performSearch lower_ascii
     (state_after lower_ascii
        [(loaded [\<lparr>pinyin = Some [0x6E, 0x69, 0x33], hanzi = Some [0x4F60],
                   searchable_pinyin = None, searchable_hanzi = None\<rparr>,
                  \<lparr>pinyin = Some [0x6E, 0x69, 0x6E, 0x32], hanzi = Some [0x60A8],
                   searchable_pinyin = None, searchable_hanzi = None\<rparr>] Map.empty, init_msg)])
     [0x6E, 0x69] \<lparr>key = Some ''pinyin'', threshold = None, lengthTolerance = Some 0\<rparr> None =
     Some [\<lparr>item = 0, score = 1, bigramScore = 0\<rparr>] \<and>
   get_searchable ''pinyin''
     (objects (state_after lower_ascii
        [(loaded [\<lparr>pinyin = Some [0x6E, 0x69, 0x33], hanzi = Some [0x4F60],
                   searchable_pinyin = None, searchable_hanzi = None\<rparr>,
                  \<lparr>pinyin = Some [0x6E, 0x69, 0x6E, 0x32], hanzi = Some [0x60A8],
                   searchable_pinyin = None, searchable_hanzi = None\<rparr>] Map.empty, init_msg)])
      ! 1) = Some [0x6E, 0x69, 0x6E] \<and>
   levenshteinDistance [0x6E, 0x69] [0x6E, 0x69, 0x6E] = 1 \<and>
   threshold_of \<lparr>key = Some ''pinyin'', threshold = None, lengthTolerance = Some 0\<rparr>
     \<le> similarityScore [0x6E, 0x69] [0x6E, 0x69, 0x6E] \<and>
   (\<exists>s. get_searchable ''pinyin''
     (objects (state_after lower_ascii
        [(loaded [\<lparr>pinyin = Some [0x6E, 0x69, 0x33], hanzi = Some [0x4F60],
                   searchable_pinyin = None, searchable_hanzi = None\<rparr>,
                  \<lparr>pinyin = Some [0x6E, 0x69, 0x6E, 0x32], hanzi = Some [0x60A8],
                   searchable_pinyin = None, searchable_hanzi = None\<rparr>] Map.empty, init_msg)])
      ! 0) = Some s \<and> length s = 2)"
proof -
  let ?evs = "[(loaded [\<lparr>pinyin = Some [0x6E, 0x69, 0x33], hanzi = Some [0x4F60],
                   searchable_pinyin = None, searchable_hanzi = None\<rparr>,
                  \<lparr>pinyin = Some [0x6E, 0x69, 0x6E, 0x32], hanzi = Some [0x60A8],
                   searchable_pinyin = None, searchable_hanzi = None\<rparr>] Map.empty, init_msg)]"
  let ?st = "state_after lower_ascii ?evs"
  let ?opts = "\<lparr>key = Some ''pinyin'', threshold = None, lengthTolerance = Some 0\<rparr>"
  have found: "performSearch lower_ascii ?st [0x6E, 0x69] ?opts None =
      Some [\<lparr>item = 0, score = 1, bigramScore = 0\<rparr>]"
    by (simp add: worker_eval)
  have other: "get_searchable ''pinyin'' (objects ?st ! 1) = Some [0x6E, 0x69, 0x6E]"
    by (simp add: worker_eval)
  have score: "levenshteinDistance [0x6E, 0x69] [0x6E, 0x69, 0x6E] = 1"
    "threshold_of ?opts \<le> similarityScore [0x6E, 0x69] [0x6E, 0x69, 0x6E]"
    by (simp_all add: worker_eval)
  have "\<exists>s. get_searchable ''pinyin'' (objects ?st ! 0) = Some s \<and> length s = 2"
    using performSearch_length_range [where lc = lower_ascii and evs = ?evs
        and q = "[0x6E, 0x69]" and opts = ?opts and prev = None]
    unfolding found by (auto simp add: tolerance_of_def lower_ascii_def)
  then show ?thesis using found other score by blast
qed









section \<open>Properties of the message handler\<close>

text \<open>
  An \<open>init\<close> message whose data loads, and the states the worker reaches before any such
  message: their index is still the empty object.
\<close>

fun successful_init :: "fetch_outcome \<times> worker_request \<Rightarrow> bool" where
  "successful_init (loaded d b, init_msg) = True"
| "successful_init _ = False"



lemma initialize_failed:
  assumes "\<And>d b. env \<noteq> loaded d b"
  shows "searchIndex (fst (initialize lc env st)) = searchIndex st \<and>
         snd (snd (initialize lc env st)) \<noteq> None"
proof (cases env)
  case (loaded d b)
  then show ?thesis using assms by blast
qed (simp_all add: initialize_def parse_dictionary_def)

lemma search_before_init:
  assumes "searchIndex st = Map.empty"
  shows "onmessage lc env st (search_msg payload searchId) =
     (st, [post (search_results [] searchId)])"
proof -
  have "performSearch lc st (query payload) (options payload) (previousWordHanzi payload) = Some []"
    by (rule performSearch_empty) (cases "key (options payload)"; simp add: assms)
  then show ?thesis by simp
qed

lemma no_index_before_init:
  assumes "\<forall>ev \<in> set evs. \<not> successful_init ev" and "searchIndex st = Map.empty"
  shows "searchIndex (fst (worker_run lc st evs)) = Map.empty"
  using assms
proof (induction evs arbitrary: st)
  case Nil
  then show ?case by simp
next
  case (Cons ev evs)
  obtain env m where ev: "ev = (env, m)" by (cases ev)
  have "searchIndex (fst (onmessage lc env st m)) = Map.empty"
  proof (cases m)
    case init_msg
    then have "\<And>d b. env \<noteq> loaded d b"
      using Cons.prems(1) ev by auto
    from initialize_failed [OF this, of lc st] show ?thesis
      using Cons.prems(2) by (simp only: onmessage_state init_msg worker_request.case)
  next
    case (search_msg payload searchId)
    then show ?thesis using Cons.prems(2) by (simp only: onmessage_state worker_request.case)
  next
    case other_request
    then show ?thesis using Cons.prems(2) by (simp only: onmessage_state worker_request.case)
  qed
  moreover have "\<forall>ev \<in> set evs. \<not> successful_init ev"
    using Cons.prems(1) by simp
  ultimately have "searchIndex (fst (worker_run lc (fst (onmessage lc env st m)) evs)) = Map.empty"
    by (intro Cons.IH)
  then show ?case by (simp only: ev worker_run_state)
qed

text \<open>
  C9, as the code has it.  A \<open>search\<close> message that arrives before any \<open>init\<close> message
  whose data loaded is answered at once by an ordinary \<open>search_results\<close> message with the
  identifier of the request and the empty list of results; the state does not change, so
  nothing is queued, and no error is reported.
\<close>

theorem search_before_init_answer:
  assumes "\<forall>ev \<in> set evs. \<not> successful_init ev"
  shows "onmessage lc env (state_after lc evs) (search_msg payload searchId) =
     (state_after lc evs, [post (search_results [] searchId)])"
proof -
  have "searchIndex (state_after lc evs) = Map.empty"
    unfolding state_after_def using assms
    by (rule no_index_before_init) (simp add: initial_state_def)
  then show ?thesis by (rule search_before_init)
qed

theorem search_before_init_answer_witness:
  "\<not> successful_init (response_not_ok, init_msg) \<and>
   snd (onmessage lower_ascii response_not_ok
     (state_after lower_ascii [(response_not_ok, init_msg)])
     (search_msg \<lparr>query = [0x6E, 0x69],
          options = \<lparr>key = Some ''pinyin'', threshold = None, lengthTolerance = None\<rparr>,
          previousWordHanzi = None\<rparr> 7)) =
     [post (search_results [] 7)] \<and>
   snd (worker_run lower_ascii initial_state [(response_not_ok, init_msg)]) =
     [console_log ''[Worker] Loading data...'',
      console_error (Error ''Failed to fetch worker data.''),
      post (init_error (Error ''Failed to fetch worker data.''))]"
proof -
  have none: "\<forall>ev \<in> set [(response_not_ok, init_msg)]. \<not> successful_init ev" by simp
  have "snd (worker_run lower_ascii initial_state [(response_not_ok, init_msg)]) =
     [console_log ''[Worker] Loading data...'',
      console_error (Error ''Failed to fetch worker data.''),
      post (init_error (Error ''Failed to fetch worker data.''))]"
    by (simp add: initialize_def)
  moreover have "onmessage lower_ascii response_not_ok
     (state_after lower_ascii [(response_not_ok, init_msg)])
     (search_msg \<lparr>query = [0x6E, 0x69],
          options = \<lparr>key = Some ''pinyin'', threshold = None, lengthTolerance = None\<rparr>,
          previousWordHanzi = None\<rparr> 7) =
     (state_after lower_ascii [(response_not_ok, init_msg)], [post (search_results [] 7)])"
    using none by (rule search_before_init_answer)
  ultimately show ?thesis by (simp del: onmessage.simps worker_run.simps)
qed

text \<open>
  The claim fails on the first message already: a \<open>search\<close> sent to a worker that never
  received \<open>init\<close> is answered by \<open>search_results\<close> with no results, as a search without
  matches is; the worker has no queue and no message for "not ready".
\<close>

theorem search_before_init_counterexample:
  "onmessage lower_ascii response_not_ok initial_state
     (search_msg \<lparr>query = [0x6E, 0x69],
          options = \<lparr>key = Some ''pinyin'', threshold = None, lengthTolerance = None\<rparr>,
          previousWordHanzi = None\<rparr> 7) =
     (initial_state, [post (search_results [] 7)])"
  by (simp add: initial_state_def performSearch_def collect_results_def)












section \<open>The client: \<open>TypoAPI.search\<close> and \<open>TypoAPI._handleSearchResult\<close>\<close>

text \<open>
  The fields of a \<open>TypoAPI\<close> instance that \<open>search\<close> and \<open>_handleSearchResult\<close> touch.
  A resolver is identified by a value of type \<open>'p\<close>, the promise it settles.  Two traces record
  the effects: \<open>posted\<close>, the messages handed to \<open>worker.postMessage\<close>, and \<open>resolved\<close>, the
  resolver calls with their argument, both oldest first.
\<close>

record 'p TypoAPI =
  pendingSearches :: "nat \<rightharpoonup> 'p"
  searchIdCounter :: nat
  posted :: "worker_request list"
  resolved :: "('p \<times> dict_record search_result list) list"



text \<open>
  \<open>_handleSearchResult(event)\<close>: only a \<open>search_results\<close> message with a pending identifier
  has an effect: the stored resolver is called with the results and its entry is deleted.
\<close>

fun handleSearchResult :: "'p TypoAPI \<Rightarrow> worker_reply \<Rightarrow> 'p TypoAPI" where
  "handleSearchResult api (search_results results searchId) =
     (case pendingSearches api searchId of
        Some cb \<Rightarrow>
          (let api1 = api\<lparr>resolved := resolved api @ [(cb, results)]\<rparr>
           in api1\<lparr>pendingSearches := (pendingSearches api1)(searchId := None)\<rparr>)
      | None \<Rightarrow> api)"
| "handleSearchResult api _ = api"






subsection \<open>Allocation of identifiers\<close>






subsection \<open>Delivery of results\<close>


lemma handle_unknown:
  "pendingSearches api sid = None \<Longrightarrow> handleSearchResult api (search_results rs sid) = api"
  by simp










end
